theory Spec2Isabelle
  imports Main "HOL-Library.Sublist"
begin

section \<open>Text: Python strings, lowercasing, substring test, translation tables\<close>

text \<open>
  A Python \<open>str\<close> is a sequence of code points. The model takes a text to be a
  \<^typ>\<open>string\<close>, a list of \<^typ>\<open>char\<close>, and reads a \<^typ>\<open>char\<close> as the code point
  of the same number, so it covers the code points below 256. On that range
  \<open>str.lower\<close> works one character at a time and stays inside the range: it moves
  \<open>A\<close>..\<open>Z\<close> (65..90) and the upper-case letters 192..222 other than the
  multiplication sign 215 up by 32, and leaves every other code point alone.
\<close>

definition lower_char :: "char \<Rightarrow> char" where
  "lower_char c =
     (let n = (of_char c :: nat) in
      if (65 \<le> n \<and> n \<le> 90) \<or> (192 \<le> n \<and> n \<le> 222 \<and> n \<noteq> 215)
      then char_of (n + 32) else c)"

definition str_lower :: "string \<Rightarrow> string" where
  "str_lower s = map lower_char s"

text \<open>
  \<open>string.punctuation\<close> of the Python standard library, the 32 characters
  \<^verbatim>\<open>!"#$%&'()*+,-./:;<=>?@[\]^_`{|}~\<close>, written by code point.
\<close>

definition punctuation :: string where
  "punctuation =
     [CHR 0x21, CHR 0x22, CHR 0x23, CHR 0x24, CHR 0x25, CHR 0x26, CHR 0x27, CHR 0x28,
      CHR 0x29, CHR 0x2A, CHR 0x2B, CHR 0x2C, CHR 0x2D, CHR 0x2E, CHR 0x2F,
      CHR 0x3A, CHR 0x3B, CHR 0x3C, CHR 0x3D, CHR 0x3E, CHR 0x3F, CHR 0x40,
      CHR 0x5B, CHR 0x5C, CHR 0x5D, CHR 0x5E, CHR 0x5F, CHR 0x60,
      CHR 0x7B, CHR 0x7C, CHR 0x7D, CHR 0x7E]"

text \<open>
  A translation table as \<open>str.maketrans\<close> builds it: a dictionary from a character
  to its replacement, or to \<open>None\<close> when the character is to be deleted.
  \<open>str.maketrans(x, y, z)\<close> maps the characters of \<open>x\<close> to those of \<open>y\<close> at the
  same position and then the characters of \<open>z\<close> to \<open>None\<close>. The library raises
  \<open>ValueError\<close> when \<open>x\<close> and \<open>y\<close> differ in length; the program's only call
  passes two empty strings, and the model is of calls with \<open>x\<close> and \<open>y\<close> of the same
  length.
\<close>

datatype replacement = Delete | Replace char

type_synonym table = "char \<rightharpoonup> replacement"

fun fill_pairs :: "table \<Rightarrow> (char \<times> char) list \<Rightarrow> table" where
  "fill_pairs t [] = t"
| "fill_pairs t ((a, b) # ps) = fill_pairs (t(a \<mapsto> Replace b)) ps"

fun fill_deleted :: "table \<Rightarrow> string \<Rightarrow> table" where
  "fill_deleted t [] = t"
| "fill_deleted t (c # cs) = fill_deleted (t(c \<mapsto> Delete)) cs"

definition maketrans :: "string \<Rightarrow> string \<Rightarrow> string \<Rightarrow> table" where
  "maketrans x y z = fill_deleted (fill_pairs Map.empty (zip x y)) z"

text \<open>
  \<open>str.translate(table)\<close>: a character that is not a key of the table is kept, one
  mapped to \<open>None\<close> is dropped, any other is replaced.
\<close>

fun translate :: "table \<Rightarrow> string \<Rightarrow> string" where
  "translate t [] = []"
| "translate t (c # cs) =
     (case t c of
        None \<Rightarrow> c # translate t cs
      | Some Delete \<Rightarrow> translate t cs
      | Some (Replace d) \<Rightarrow> d # translate t cs)"

text \<open>
  \<open>standardize_text\<close>, lines 134 to 138:
  \<^verbatim>\<open>return text.lower().translate(str.maketrans("", "", string.punctuation))\<close>
\<close>

definition standardize_text :: "string \<Rightarrow> string" where
  "standardize_text text = translate (maketrans [] [] punctuation) (str_lower text)"

text \<open>
  The operator \<open>in\<close> on two strings: \<open>sub in s\<close> holds when \<open>sub\<close> occurs in \<open>s\<close>
  as a contiguous run of characters, starting at some position; the empty string
  occurs in every string.
\<close>

fun str_in :: "string \<Rightarrow> string \<Rightarrow> bool" where
  "str_in sub [] = (sub = [])"
| "str_in sub (c # cs) = (prefix sub (c # cs) \<or> str_in sub cs)"

section \<open>Module globals\<close>

text \<open>Lines 26 to 40 of \<open>main.py\<close>. \<open>KEYWORDS\<close> is a Python set; the list gives its
  members, and the loops over it are shown below not to depend on the order.\<close>

definition QUOTES :: "string list" where
  "QUOTES =
     [''We are the creators of our own reality, the architects of our own destiny.'',
      ''The soul, like the mind, is never truly free until it has reconciled itself with the uncertainties of existence.'',
      ''In every moment, we must choose between despair and hope, for it is only through choice that we find meaning.'',
      ''The true path to wisdom is not through reason alone, but through the balance of emotion and intellect.'',
      ''Life does not follow the rules of logic; it unfolds in mysterious and unpredictable ways, challenging us to adapt.'',
      ''To be human is to be constantly in conflict with the world, yet also to find beauty within that struggle.'',
      ''It is not enough to seek answers; we must embrace the questions that lead us to deeper understanding.'',
      ''Freedom is not given to us, it is something we must claim for ourselves.'',
      ''We are all part of a greater story, one that transcends our individual lives and connects us to something far more profound.'',
      ''True power lies in the ability to shape the world around us, but even more so in the capacity to shape our own thoughts.'']"

definition KEYWORDS :: "string list" where
  "KEYWORDS = [''reality'', ''soul'', ''wisdom'', ''life'', ''human'', ''freedom'', ''power'']"

definition DONT_COMMENT_KEYWORD :: string where
  "DONT_COMMENT_KEYWORD = ''!nopost''"

section \<open>Exceptions, logging, the objects of the platform, the bot's state\<close>

text \<open>
  An exception is either an instance of \<open>Exception\<close> (carried with its message) or an
  instance of \<open>BaseException\<close> outside \<open>Exception\<close>, such as \<open>SystemExit\<close>,
  \<open>KeyboardInterrupt\<close> or \<open>GeneratorExit\<close> (carried with its class name). The
  clause \<open>except Exception as e\<close> of line 62 matches the first kind only.
\<close>

datatype exn = Exception string | NonException string

datatype level = DEBUG | INFO | ERROR

fun levelno :: "level \<Rightarrow> nat" where
  "levelno DEBUG = 10"
| "levelno INFO = 20"
| "levelno ERROR = 40"

text \<open>Line 15: \<open>logging.basicConfig(..., level=logging.INFO, ...)\<close>.\<close>

definition configured_level :: level where
  "configured_level = INFO"

record comment =
  comment_id :: nat
  body :: string

record submission =
  submission_id :: nat
  selftext :: string
  title :: string

text \<open>An item of the inbox stream is a \<open>Comment\<close> or a \<open>Message\<close>; both carry a
  subject and a body. \<open>is_comment\<close> is \<open>isinstance(message, Comment)\<close>.\<close>

record inbox_item =
  item_id :: nat
  subject :: string
  item_body :: string
  is_comment :: bool

datatype thing = OfComment comment | OfSubmission submission | OfInbox inbox_item

text \<open>
  What the program does to the outside, in order: a call of \<open>obj.reply(text)\<close>, a call
  of \<open>message.mark_read()\<close>, a log record that passed the configured level.
\<close>

datatype effect = Reply thing string | MarkRead inbox_item | Log level string

text \<open>
  The state carries the module globals that \<open>write_comment\<close> reads when it runs,
  \<open>QUOTES\<close> (a mutable Python list) and \<open>USERNAME\<close> (the result of
  \<open>os.getenv\<close>, \<open>None\<close> when the variable is unset), and the effects so far.
\<close>

record bot_state =
  quotes :: "string list"
  username :: "string option"
  trace :: "effect list"

definition initial_state :: "string option \<Rightarrow> bot_state" where
  "initial_state u = \<lparr>quotes = QUOTES, username = u, trace = []\<rparr>"

text \<open>
  What the outside answers while one item is handled: the number the random generator
  draws, and whether the calls of \<open>reply\<close> and \<open>mark_read\<close> raise.
\<close>

record env =
  draw :: nat
  reply_raises :: "exn option"
  mark_read_raises :: "exn option"

definition emit :: "level \<Rightarrow> string \<Rightarrow> bot_state \<Rightarrow> bot_state" where
  "emit lvl msg s =
     (if levelno configured_level \<le> levelno lvl
      then s\<lparr>trace := trace s @ [Log lvl msg]\<rparr> else s)"

definition logger_debug :: "string \<Rightarrow> bot_state \<Rightarrow> bot_state" where
  "logger_debug msg s = emit DEBUG msg s"

definition logger_info :: "string \<Rightarrow> bot_state \<Rightarrow> bot_state" where
  "logger_info msg s = emit INFO msg s"

section \<open>The trigger policy\<close>

text \<open>Lines 107 to 110: the loop over \<open>KEYWORDS\<close> that returns at the first match.\<close>

fun keyword_in_body :: "string list \<Rightarrow> string \<Rightarrow> bool" where
  "keyword_in_body [] b = False"
| "keyword_in_body (keyword # ks) b =
     (if str_in keyword b then True else keyword_in_body ks b)"

definition should_comment_on_comment :: "comment \<Rightarrow> bool" where
  "should_comment_on_comment c =
     (if str_in (str_lower DONT_COMMENT_KEYWORD) (str_lower (body c)) then False
      else keyword_in_body KEYWORDS (standardize_text (body c)))"

text \<open>Lines 121 to 124.\<close>

fun keyword_in_body_or_title :: "string list \<Rightarrow> string \<Rightarrow> string \<Rightarrow> bool" where
  "keyword_in_body_or_title [] b t = False"
| "keyword_in_body_or_title (keyword # ks) b t =
     (if str_in keyword b \<or> str_in keyword t then True
      else keyword_in_body_or_title ks b t)"

definition should_comment_on_post :: "submission \<Rightarrow> bool" where
  "should_comment_on_post p =
     (if str_in (str_lower DONT_COMMENT_KEYWORD) (str_lower (selftext p))
         \<or> str_in (str_lower DONT_COMMENT_KEYWORD) (str_lower (title p)) then False
      else keyword_in_body_or_title KEYWORDS
             (standardize_text (selftext p)) (standardize_text (title p)))"

section \<open>Composing and sending a reply\<close>

text \<open>
  \<open>random.choice(seq)\<close> raises
  \<open>IndexError('Cannot choose from an empty sequence')\<close> on an empty sequence and otherwise
  returns the element at an index below \<open>len(seq)\<close>; \<open>r\<close> is the raw number the
  generator supplies, brought below the length.
\<close>

definition choice :: "'a list \<Rightarrow> nat \<Rightarrow> exn + 'a" where
  "choice seq r =
     (if seq = [] then Inl (Exception ''Cannot choose from an empty sequence'')
      else Inr (seq ! (r mod length seq)))"

text \<open>How an f-string renders \<open>USERNAME\<close>: the string itself, or \<open>None\<close>.\<close>

fun format_username :: "string option \<Rightarrow> string" where
  "format_username None = ''None''"
| "format_username (Some u) = u"

definition footer :: "string option \<Rightarrow> string" where
  "footer u =
     [CHR 0x0A, CHR 0x0A] @ ''[^(source)](https://www.reddit.com/user/'' @ format_username u @ '')''"

text \<open>Lines 126 to 132. The first component of the result is the exception that
  leaves the function, if any.\<close>

definition write_comment :: "env \<Rightarrow> thing \<Rightarrow> bot_state \<Rightarrow> exn option \<times> bot_state" where
  "write_comment e obj s =
     (case choice (quotes s) (draw e) of
        Inl x \<Rightarrow> (Some x, s)
      | Inr quote \<Rightarrow>
          (let comment_string = quote @ footer (username s)
           in (reply_raises e, s\<lparr>trace := trace s @ [Reply obj comment_string]\<rparr>)))"

section \<open>The three watchers\<close>

text \<open>
  A stream is unbounded and blocks between items. A run of a watcher is modelled on
  what the stream has delivered so far: an item, together with what the outside
  answers while it is handled, or a failure of the stream itself. At the end of the
  list the watcher is waiting for the next item.
\<close>

datatype 'i delivery = Yields env 'i | Fails exn

text \<open>Lines 75 to 81, the body of the loop of \<open>iterate_comments\<close>.\<close>

definition comment_step :: "env \<Rightarrow> comment \<Rightarrow> bot_state \<Rightarrow> exn option \<times> bot_state" where
  "comment_step e c s =
     (let s0 = logger_debug (''Analyzing comment: '' @ body c) s;
          should_comment = should_comment_on_comment c
      in if should_comment
         then (case write_comment e (OfComment c) s0 of
                 (Some x, s1) \<Rightarrow> (Some x, s1)
               | (None, s1) \<Rightarrow> (None, logger_info (''Added comment to comment: '' @ body c) s1))
         else (None, logger_debug ''Not commenting'' s0))"

fun iterate_comments :: "comment delivery list \<Rightarrow> bot_state \<Rightarrow> exn option \<times> bot_state" where
  "iterate_comments [] s = (None, s)"
| "iterate_comments (Fails x # rest) s = (Some x, s)"
| "iterate_comments (Yields e c # rest) s =
     (case comment_step e c s of
        (Some x, s1) \<Rightarrow> (Some x, s1)
      | (None, s1) \<Rightarrow> iterate_comments rest s1)"

text \<open>Lines 91 to 97, the body of the loop of \<open>iterate_posts\<close>.\<close>

definition post_step :: "env \<Rightarrow> submission \<Rightarrow> bot_state \<Rightarrow> exn option \<times> bot_state" where
  "post_step e p s =
     (let s0 = logger_debug (''Analyzing post: '' @ title p) s;
          should_comment = should_comment_on_post p
      in if should_comment
         then (case write_comment e (OfSubmission p) s0 of
                 (Some x, s1) \<Rightarrow> (Some x, s1)
               | (None, s1) \<Rightarrow> (None, logger_info (''Added comment to post: '' @ title p) s1))
         else (None, logger_debug ''Not commenting'' s0))"

fun iterate_posts :: "submission delivery list \<Rightarrow> bot_state \<Rightarrow> exn option \<times> bot_state" where
  "iterate_posts [] s = (None, s)"
| "iterate_posts (Fails x # rest) s = (Some x, s)"
| "iterate_posts (Yields e p # rest) s =
     (case post_step e p s of
        (Some x, s1) \<Rightarrow> (Some x, s1)
      | (None, s1) \<Rightarrow> iterate_posts rest s1)"

text \<open>Lines 146 to 150, the body of the loop of \<open>listen_and_process_mentions\<close>.\<close>

definition mention_step :: "env \<Rightarrow> inbox_item \<Rightarrow> bot_state \<Rightarrow> exn option \<times> bot_state" where
  "mention_step e message s =
     (let subj = standardize_text (subject message)
      in if subj = ''username mention'' \<and> is_comment message
         then (case write_comment e (OfInbox message) s of
                 (Some x, s1) \<Rightarrow> (Some x, s1)
               | (None, s1) \<Rightarrow>
                   (let s2 = logger_info (''Added comment to message: '' @ item_body message) s1
                    in (mark_read_raises e, s2\<lparr>trace := trace s2 @ [MarkRead message]\<rparr>)))
         else (None, s))"

fun listen_and_process_mentions ::
    "inbox_item delivery list \<Rightarrow> bot_state \<Rightarrow> exn option \<times> bot_state" where
  "listen_and_process_mentions [] s = (None, s)"
| "listen_and_process_mentions (Fails x # rest) s = (Some x, s)"
| "listen_and_process_mentions (Yields e m # rest) s =
     (case mention_step e m s of
        (Some x, s1) \<Rightarrow> (Some x, s1)
      | (None, s1) \<Rightarrow> listen_and_process_mentions rest s1)"

section \<open>The restart wrapper\<close>

text \<open>
  Lines 56 to 65. A handler is given by what each of its invocations does when it
  ends: the invocation numbered \<open>k\<close> (from 0) on arguments \<open>args\<close> returns or raises.
  The wrapper records the arguments of every call it makes and the log records it
  writes. Its loop has no exit of its own: \<open>while_True fuel\<close> runs \<open>fuel\<close> rounds of
  it and answers \<open>None\<close> when the loop is still running after them, and the exception
  when one left the loop, and with it the wrapper, before. The two log calls of the
  wrapper are at the levels \<open>INFO\<close> and \<open>ERROR\<close>, so both records pass the
  configured level.
\<close>

datatype outcome = Returns | Raises exn

record 'a supervision =
  invocations :: "'a list"
  records :: "effect list"

fun while_True ::
    "nat \<Rightarrow> ('a \<Rightarrow> nat \<Rightarrow> outcome) \<Rightarrow> 'a \<Rightarrow> 'a supervision \<Rightarrow> exn option \<times> 'a supervision" where
  "while_True 0 handler args v = (None, v)"
| "while_True (Suc fuel) handler args v =
     (let v1 = v\<lparr>invocations := invocations v @ [args]\<rparr>
      in case handler args (length (invocations v)) of
           Returns \<Rightarrow> while_True fuel handler args v1
         | Raises (Exception msg) \<Rightarrow>
             while_True fuel handler args
               (v1\<lparr>records := records v1 @ [Log ERROR (''Exception: '' @ msg)]\<rparr>)
         | Raises (NonException cls) \<Rightarrow> (Some (NonException cls), v1))"

text \<open>\<open>restart handler\<close> is the wrapped function; \<open>str_args\<close> renders the arguments
  for the first log record.\<close>

definition restart ::
    "('a \<Rightarrow> string) \<Rightarrow> ('a \<Rightarrow> nat \<Rightarrow> outcome) \<Rightarrow> nat \<Rightarrow> 'a \<Rightarrow> exn option \<times> 'a supervision" where
  "restart str_args handler fuel args =
     while_True fuel handler args
       \<lparr>invocations = [], records = [Log INFO (''Starting thread with: '' @ str_args args)]\<rparr>"

section \<open>Vocabulary of the properties and sample inputs\<close>

text \<open>The code points that \<open>str.lower\<close> changes, and those of
  \<open>string.punctuation\<close>.\<close>

definition is_upper_code :: "nat \<Rightarrow> bool" where
  "is_upper_code n = ((65 \<le> n \<and> n \<le> 90) \<or> (192 \<le> n \<and> n \<le> 222 \<and> n \<noteq> 215))"

definition is_punct_code :: "nat \<Rightarrow> bool" where
  "is_punct_code n =
     ((33 \<le> n \<and> n \<le> 47) \<or> (58 \<le> n \<and> n \<le> 64) \<or> (91 \<le> n \<and> n \<le> 96) \<or> (123 \<le> n \<and> n \<le> 126))"

text \<open>An outside on which no call raises and the generator draws 0.\<close>

definition calm :: env where
  "calm = \<lparr>draw = 0, reply_raises = None, mark_read_raises = None\<rparr>"

text \<open>A username mention, of comment type, whose body carries the opt-out marker.\<close>

definition optout_mention :: inbox_item where
  "optout_mention =
     \<lparr>item_id = 1, subject = ''username mention'',
      item_body = ''u/pradon-bot !nopost'', is_comment = True\<rparr>"


definition plain_mention :: inbox_item where
  "plain_mention =
     \<lparr>item_id = 2, subject = ''username mention'',
      item_body = ''u/pradon-bot hello'', is_comment = True\<rparr>"

text \<open>The argument tuples with which lines 155 to 157 start the three threads, \<open>()\<close>
  and \<open>('quotes',)\<close>, and how \<open>%s\<close> renders them.\<close>

datatype main_args = No_args | Quotes_arg

fun str_main_args :: "main_args \<Rightarrow> string" where
  "str_main_args No_args = ''()''"
| "str_main_args Quotes_arg = ''('' @ [CHR 0x27] @ ''quotes'' @ [CHR 0x27] @ '',)''"

text \<open>A handler whose first call ends in \<open>sys.exit()\<close>, one that fails twice with an
  \<open>Exception\<close> and returns from then on, and one that fails twice with an
  \<open>Exception\<close> and is interrupted in its third call.\<close>

definition exiting_handler :: "main_args \<Rightarrow> nat \<Rightarrow> outcome" where
  "exiting_handler args k = Raises (NonException ''SystemExit'')"

definition flaky_handler :: "main_args \<Rightarrow> nat \<Rightarrow> outcome" where
  "flaky_handler args k = (if k < 2 then Raises (Exception ''timeout'') else Returns)"

definition interrupted_handler :: "main_args \<Rightarrow> nat \<Rightarrow> outcome" where
  "interrupted_handler args k =
     (if k < 2 then Raises (Exception ''timeout'') else Raises (NonException ''KeyboardInterrupt''))"

text \<open>The \<open>ERROR\<close> records the wrapper writes for the invocations numbered in a
  list: one for each that raises an instance of \<open>Exception\<close>, in order.\<close>

fun error_records :: "('a \<Rightarrow> nat \<Rightarrow> outcome) \<Rightarrow> 'a \<Rightarrow> nat list \<Rightarrow> effect list" where
  "error_records handler args [] = []"
| "error_records handler args (k # ks) =
     (case handler args k of
        Raises (Exception msg) \<Rightarrow> [Log ERROR (''Exception: '' @ msg)]
      | _ \<Rightarrow> [])
     @ error_records handler args ks"

section \<open>Properties of the text functions\<close>

lemma str_in_sublist: "str_in xs ys = sublist xs ys"
  by (induction ys) (auto simp: sublist_Cons_right)

lemma fill_deleted_apply:
  "fill_deleted t cs c = (if c \<in> set cs then Some Delete else t c)"
  by (induction cs arbitrary: t) auto

lemma translate_deleting:
  "translate (fill_deleted Map.empty cs) s = filter (\<lambda>c. c \<notin> set cs) s"
  by (induction s) (auto simp: fill_deleted_apply)

lemma standardize_text_filter:
  "standardize_text s = filter (\<lambda>c. c \<notin> set punctuation) (map lower_char s)"
  by (simp add: standardize_text_def maketrans_def translate_deleting str_lower_def)

lemma punct_codes: "c \<in> set punctuation \<longleftrightarrow> is_punct_code (of_char c)"
  by (cases c) (simp add: punctuation_def is_punct_code_def)

lemma of_char_lower:
  "(of_char (lower_char c) :: nat) =
     (if is_upper_code (of_char c) then of_char c + 32 else of_char c)"
  by (auto simp: lower_char_def Let_def is_upper_code_def)

lemma lower_char_idem: "lower_char (lower_char c) = lower_char c"
proof -
  have "(of_char (lower_char (lower_char c)) :: nat) = of_char (lower_char c)"
    by (auto simp: of_char_lower is_upper_code_def)
  then show ?thesis by simp
qed

lemma lower_char_punct: "lower_char c \<in> set punctuation \<longleftrightarrow> c \<in> set punctuation"
  by (auto simp: punct_codes of_char_lower is_punct_code_def is_upper_code_def)

lemma standardize_text_append:
  "standardize_text (a @ b) = standardize_text a @ standardize_text b"
  by (simp add: standardize_text_filter)

text \<open>
  Claim C5. For every text, the empty one included, \<open>standardize_text\<close> returns the
  lower-cased text with the characters of \<open>string.punctuation\<close> taken out and all
  other characters kept in their order: the result has no punctuation character and
  no character that \<open>str.lower\<close> would change. The function is total: it has a
  value, and no failing branch, on every text.
\<close>

theorem standardize_text_lower_without_punctuation:
  "standardize_text s = filter (\<lambda>c. c \<notin> set punctuation) (str_lower s)
   \<and> set (standardize_text s) \<inter> set punctuation = {}
   \<and> \<not> (\<exists>c. c \<in> set (standardize_text s) \<and> is_upper_code (of_char c))
   \<and> standardize_text [] = []"
proof -
  have a: "standardize_text s = filter (\<lambda>c. c \<notin> set punctuation) (str_lower s)"
    by (simp add: standardize_text_filter str_lower_def)
  have b: "set (standardize_text s) \<inter> set punctuation = {}"
    by (auto simp: standardize_text_filter)
  have "\<not> is_upper_code (of_char (lower_char c))" for c
    by (auto simp: of_char_lower is_upper_code_def)
  then have c: "\<not> (\<exists>c. c \<in> set (standardize_text s) \<and> is_upper_code (of_char c))"
    by (auto simp: standardize_text_filter)
  have d: "standardize_text [] = []"
    by (simp add: standardize_text_filter)
  from a b c d show ?thesis by blast
qed

theorem standardize_text_lower_without_punctuation_witness:
  "standardize_text ''Hello, World! 42'' = ''hello world 42''"
proof -
  have "filter (\<lambda>c. c \<notin> set punctuation) (str_lower ''Hello, World! 42'') = ''hello world 42''"
    by code_simp
  with standardize_text_lower_without_punctuation [of "''Hello, World! 42''"]
  show ?thesis by (simp only:)
qed

text \<open>
  Claim C7. \<open>standardize_text\<close> is idempotent: applied to its own result it returns
  that result.
\<close>

theorem standardize_text_idempotent:
  "standardize_text (standardize_text s) = standardize_text s"
  by (induction s) (auto simp: standardize_text_filter lower_char_idem lower_char_punct)

lemma keywords_standard: "list_all (\<lambda>k. standardize_text k = k) KEYWORDS"
  by code_simp

text \<open>
  Claim C10. Every keyword of \<open>KEYWORDS\<close> is a fixed point of \<open>standardize_text\<close>, and
  so normalization cannot lose a keyword: a keyword that occurs in a raw text occurs
  in the normalized text as well.
\<close>

theorem keywords_fixed_by_standardize_text:
  "(\<forall>k \<in> set KEYWORDS. standardize_text k = k)
   \<and> (\<forall>k \<in> set KEYWORDS. \<forall>t. str_in k t \<longrightarrow> str_in k (standardize_text t))"
proof (intro conjI ballI allI impI)
  fix k assume "k \<in> set KEYWORDS"
  then show fp: "standardize_text k = k"
    using keywords_standard by (simp add: list_all_iff)
  fix t assume "str_in k t"
  then obtain ps ss where "t = ps @ k @ ss"
    by (auto simp: str_in_sublist sublist_def)
  then have "standardize_text t = standardize_text ps @ k @ standardize_text ss"
    by (simp add: standardize_text_append fp)
  then show "str_in k (standardize_text t)"
    by (simp add: str_in_sublist)
qed

theorem keywords_fixed_by_standardize_text_witness:
  "''life'' \<in> set KEYWORDS \<and> standardize_text ''life'' = ''life''
   \<and> str_in ''life'' ''new lifestyle, tips''
   \<and> str_in ''life'' (standardize_text ''new lifestyle, tips'')"
proof -
  have m: "''life'' \<in> set KEYWORDS" by (simp add: KEYWORDS_def)
  have i: "str_in ''life'' ''new lifestyle, tips''" by simp
  from keywords_fixed_by_standardize_text m i show ?thesis by blast
qed

section \<open>Properties of the trigger policy\<close>

lemma keyword_in_body_iff: "keyword_in_body ks b \<longleftrightarrow> (\<exists>k \<in> set ks. str_in k b)"
  by (induction ks) auto

lemma keyword_in_body_or_title_iff:
  "keyword_in_body_or_title ks b t \<longleftrightarrow> (\<exists>k \<in> set ks. str_in k b \<or> str_in k t)"
  by (induction ks) auto

lemma marker_lower: "str_lower DONT_COMMENT_KEYWORD = ''!nopost''"
  by code_simp

lemma sublist_map_preimage:
  assumes "sublist ys (map f xs)"
  shows "\<exists>ps u ss. xs = ps @ u @ ss \<and> map f u = ys"
proof -
  from assms obtain ps' ss' where "map f xs = ps' @ ys @ ss'"
    by (auto simp: sublist_def)
  then obtain ps r where t: "xs = ps @ r" and r: "map f r = ys @ ss'"
    by (metis map_eq_append_conv)
  from r obtain u ss where "r = u @ ss" and "map f u = ys"
    by (metis map_eq_append_conv)
  with t show ?thesis by blast
qed

lemma str_in_lower_iff:
  "str_in (str_lower m) (str_lower t) \<longleftrightarrow>
     (\<exists>ps u ss. t = ps @ u @ ss \<and> str_lower u = str_lower m)"
proof
  assume "str_in (str_lower m) (str_lower t)"
  then show "\<exists>ps u ss. t = ps @ u @ ss \<and> str_lower u = str_lower m"
    using sublist_map_preimage [of "map lower_char m" lower_char t]
    by (simp add: str_in_sublist str_lower_def)
next
  assume "\<exists>ps u ss. t = ps @ u @ ss \<and> str_lower u = str_lower m"
  then show "str_in (str_lower m) (str_lower t)"
    by (auto simp: str_in_sublist str_lower_def)
qed

text \<open>
  Claim C1. The policy for a comment, and the one for a post, answers true exactly when
  the marker \<open>!nopost\<close> does not occur in any lower-cased raw field (the body; the
  selftext or the title) and some keyword of the fixed set occurs in some normalized
  field. The marker check comes first, so a field with the marker gives false whatever
  the keywords; occurrence is occurrence as a contiguous run, so a keyword inside a
  longer word counts. The marker occurs in the lower-cased field exactly when some run
  of the raw field equals it up to letter case.
\<close>

theorem trigger_policy:
  "(should_comment_on_comment c \<longleftrightarrow>
      \<not> str_in ''!nopost'' (str_lower (body c))
      \<and> (\<exists>k \<in> {''reality'', ''soul'', ''wisdom'', ''life'', ''human'', ''freedom'', ''power''}.
            str_in k (standardize_text (body c))))
   \<and> (should_comment_on_post p \<longleftrightarrow>
      \<not> str_in ''!nopost'' (str_lower (selftext p))
      \<and> \<not> str_in ''!nopost'' (str_lower (title p))
      \<and> (\<exists>k \<in> {''reality'', ''soul'', ''wisdom'', ''life'', ''human'', ''freedom'', ''power''}.
            str_in k (standardize_text (selftext p)) \<or> str_in k (standardize_text (title p))))
   \<and> (str_in ''!nopost'' (str_lower t) \<longleftrightarrow>
        (\<exists>ps u ss. t = ps @ u @ ss \<and> str_lower u = ''!nopost''))"
proof -
  have k: "set KEYWORDS = {''reality'', ''soul'', ''wisdom'', ''life'', ''human'', ''freedom'', ''power''}"
    by (simp add: KEYWORDS_def)
  have a: "should_comment_on_comment c \<longleftrightarrow>
      \<not> str_in ''!nopost'' (str_lower (body c))
      \<and> (\<exists>k \<in> set KEYWORDS. str_in k (standardize_text (body c)))"
    by (simp add: should_comment_on_comment_def marker_lower keyword_in_body_iff)
  have b: "should_comment_on_post p \<longleftrightarrow>
      \<not> str_in ''!nopost'' (str_lower (selftext p))
      \<and> \<not> str_in ''!nopost'' (str_lower (title p))
      \<and> (\<exists>k \<in> set KEYWORDS.
            str_in k (standardize_text (selftext p)) \<or> str_in k (standardize_text (title p)))"
    by (simp add: should_comment_on_post_def marker_lower keyword_in_body_or_title_iff)
  have c: "str_in ''!nopost'' (str_lower t) \<longleftrightarrow>
        (\<exists>ps u ss. t = ps @ u @ ss \<and> str_lower u = ''!nopost'')"
    using str_in_lower_iff [of DONT_COMMENT_KEYWORD t] by (simp only: marker_lower)
  from a b c show ?thesis unfolding k by blast
qed

theorem trigger_policy_witness:
  "should_comment_on_comment \<lparr>comment_id = 1, body = ''Reality is fragile''\<rparr>
   \<and> \<not> should_comment_on_comment \<lparr>comment_id = 2, body = ''This life! !NoPost''\<rparr>
   \<and> should_comment_on_comment \<lparr>comment_id = 3, body = ''new lifestyle tips''\<rparr>
   \<and> \<not> should_comment_on_comment \<lparr>comment_id = 4, body = ''nothing to see''\<rparr>
   \<and> should_comment_on_post \<lparr>submission_id = 5, selftext = '''', title = ''Soul food''\<rparr>
   \<and> \<not> should_comment_on_post \<lparr>submission_id = 6, selftext = ''on power'', title = ''!nopost please''\<rparr>"
proof -
  have 1: "\<not> str_in ''!nopost'' (str_lower ''Reality is fragile'')
          \<and> str_in ''reality'' (standardize_text ''Reality is fragile'')" by code_simp
  have 2: "str_in ''!nopost'' (str_lower ''This life! !NoPost'')" by code_simp
  have 3: "\<not> str_in ''!nopost'' (str_lower ''new lifestyle tips'')
          \<and> str_in ''life'' (standardize_text ''new lifestyle tips'')" by code_simp
  have 4: "list_all (\<lambda>k. \<not> str_in k (standardize_text ''nothing to see''))
             [''reality'', ''soul'', ''wisdom'', ''life'', ''human'', ''freedom'', ''power'']" by code_simp
  have 5: "\<not> str_in ''!nopost'' (str_lower '''') \<and> \<not> str_in ''!nopost'' (str_lower ''Soul food'')
          \<and> str_in ''soul'' (standardize_text ''Soul food'')" by code_simp
  have 6: "str_in ''!nopost'' (str_lower ''!nopost please'')" by code_simp
  show ?thesis
    using 1 2 3 4 5 6
      trigger_policy [of "\<lparr>comment_id = 1, body = ''Reality is fragile''\<rparr>"
                         "\<lparr>submission_id = 5, selftext = '''', title = ''Soul food''\<rparr>"]
      trigger_policy [of "\<lparr>comment_id = 2, body = ''This life! !NoPost''\<rparr>"
                         "\<lparr>submission_id = 6, selftext = ''on power'', title = ''!nopost please''\<rparr>"]
      trigger_policy [of "\<lparr>comment_id = 3, body = ''new lifestyle tips''\<rparr>"]
      trigger_policy [of "\<lparr>comment_id = 4, body = ''nothing to see''\<rparr>"]
    by (simp del: str_in.simps)
qed

section \<open>Properties of the watchers\<close>

lemma logger_debug_silent: "logger_debug msg s = s"
  by (simp add: logger_debug_def emit_def configured_level_def)

lemma logger_info_trace: "logger_info msg s = s\<lparr>trace := trace s @ [Log INFO msg]\<rparr>"
  by (simp add: logger_info_def emit_def configured_level_def)

lemma write_comment_cases:
  "write_comment e obj s =
     (if quotes s = [] then (Some (Exception ''Cannot choose from an empty sequence''), s)
      else (reply_raises e,
            s\<lparr>trace := trace s @
               [Reply obj (quotes s ! (draw e mod length (quotes s)) @ footer (username s))]\<rparr>))"
  by (simp add: write_comment_def choice_def)

lemma quotes_length: "length QUOTES = 10"
  by (simp add: QUOTES_def)

lemma choice_quotes: "choice QUOTES r = Inr (QUOTES ! (r mod 10)) \<and> QUOTES ! (r mod 10) \<in> set QUOTES"
  by (simp add: choice_def quotes_length) (simp add: QUOTES_def)

lemma write_comment_quotes:
  "quotes s = QUOTES \<Longrightarrow>
     write_comment e obj s =
       (reply_raises e,
        s\<lparr>trace := trace s @ [Reply obj (QUOTES ! (draw e mod 10) @ footer (username s))]\<rparr>)"
  by (simp add: write_comment_def choice_quotes)

lemma comment_step_quiet:
  "\<not> should_comment_on_comment c \<Longrightarrow> comment_step e c s = (None, s)"
  by (simp add: comment_step_def logger_debug_silent)

lemma post_step_quiet:
  "\<not> should_comment_on_post p \<Longrightarrow> post_step e p s = (None, s)"
  by (simp add: post_step_def logger_debug_silent)

lemma comment_step_replies:
  "Reply t x \<in> set (trace (snd (comment_step e c s))) \<Longrightarrow>
     Reply t x \<in> set (trace s) \<or> (t = OfComment c \<and> should_comment_on_comment c)"
  by (auto simp: comment_step_def logger_debug_silent logger_info_trace write_comment_cases
           split: if_splits option.splits)

lemma post_step_replies:
  "Reply t x \<in> set (trace (snd (post_step e p s))) \<Longrightarrow>
     Reply t x \<in> set (trace s) \<or> (t = OfSubmission p \<and> should_comment_on_post p)"
  by (auto simp: post_step_def logger_debug_silent logger_info_trace write_comment_cases
           split: if_splits option.splits)

lemma iterate_comments_replies:
  "Reply t x \<in> set (trace (snd (iterate_comments ds s))) \<Longrightarrow>
     Reply t x \<in> set (trace s) \<or> (\<exists>c. t = OfComment c \<and> should_comment_on_comment c)"
proof (induction ds s rule: iterate_comments.induct)
  case (3 e c rest s)
  show ?case
  proof (cases "comment_step e c s")
    case (Pair r s1)
    have st: "Reply t x \<in> set (trace s1) \<Longrightarrow>
        Reply t x \<in> set (trace s) \<or> (t = OfComment c \<and> should_comment_on_comment c)"
      using comment_step_replies [of t x e c s] Pair by simp
    show ?thesis
    proof (cases r)
      case None
      with 3 Pair st show ?thesis by auto
    next
      case (Some a)
      with 3 Pair st show ?thesis by auto
    qed
  qed
qed simp_all

lemma iterate_posts_replies:
  "Reply t x \<in> set (trace (snd (iterate_posts ds s))) \<Longrightarrow>
     Reply t x \<in> set (trace s) \<or> (\<exists>p. t = OfSubmission p \<and> should_comment_on_post p)"
proof (induction ds s rule: iterate_posts.induct)
  case (3 e p rest s)
  show ?case
  proof (cases "post_step e p s")
    case (Pair r s1)
    have st: "Reply t x \<in> set (trace s1) \<Longrightarrow>
        Reply t x \<in> set (trace s) \<or> (t = OfSubmission p \<and> should_comment_on_post p)"
      using post_step_replies [of t x e p s] Pair by simp
    show ?thesis
    proof (cases r)
      case None
      with 3 Pair st show ?thesis by auto
    next
      case (Some a)
      with 3 Pair st show ?thesis by auto
    qed
  qed
qed simp_all




lemma mention_step_eligible:
  assumes "standardize_text (subject m) = ''username mention''" and "is_comment m"
    and "quotes s = QUOTES"
  shows "mention_step e m s =
     (case reply_raises e of
        Some x \<Rightarrow>
          (Some x,
           s\<lparr>trace := trace s @
              [Reply (OfInbox m) (QUOTES ! (draw e mod 10) @ footer (username s))]\<rparr>)
      | None \<Rightarrow>
          (mark_read_raises e,
           s\<lparr>trace := trace s @
              [Reply (OfInbox m) (QUOTES ! (draw e mod 10) @ footer (username s)),
               Log INFO (''Added comment to message: '' @ item_body m),
               MarkRead m]\<rparr>))"
  using assms
  by (simp add: mention_step_def write_comment_quotes logger_info_trace split: option.splits)


lemma mention_step_trace_grows: "\<exists>es. trace (snd (mention_step e m s)) = trace s @ es"
  by (auto simp: mention_step_def write_comment_cases logger_info_trace Let_def
           split: option.splits)

lemma mentions_trace_grows:
  "\<exists>es. trace (snd (listen_and_process_mentions ds s)) = trace s @ es"
proof (induction ds s rule: listen_and_process_mentions.induct)
  case (3 e m rest s)
  show ?case
  proof (cases "mention_step e m s")
    case (Pair r s1)
    from mention_step_trace_grows [of e m s] Pair
    obtain es where es: "trace s1 = trace s @ es" by auto
    show ?thesis
    proof (cases r)
      case None
      from 3 [OF Pair [symmetric] None] obtain es'
        where "trace (snd (listen_and_process_mentions rest s1)) = trace s1 @ es'" by blast
      with Pair None es show ?thesis by simp
    next
      case (Some x)
      with Pair es show ?thesis by simp
    qed
  qed
qed simp_all

lemma mentions_keeps_trace:
  "ef \<in> set (trace s) \<Longrightarrow> ef \<in> set (trace (snd (listen_and_process_mentions ds s)))"
  using mentions_trace_grows [of ds s] by auto

lemma mentions_replies_to_eligible:
  assumes "standardize_text (subject m) = ''username mention''" and "is_comment m"
    and "quotes s = QUOTES"
  shows "Reply (OfInbox m) (QUOTES ! (draw e mod 10) @ footer (username s))
           \<in> set (trace (snd (mention_step e m s)))"
    and "Reply (OfInbox m) (QUOTES ! (draw e mod 10) @ footer (username s))
           \<in> set (trace (snd (listen_and_process_mentions (Yields e m # rest) s)))"
proof -
  show st: "Reply (OfInbox m) (QUOTES ! (draw e mod 10) @ footer (username s))
           \<in> set (trace (snd (mention_step e m s)))"
    by (simp add: mention_step_eligible [OF assms] split: option.splits)
  show "Reply (OfInbox m) (QUOTES ! (draw e mod 10) @ footer (username s))
           \<in> set (trace (snd (listen_and_process_mentions (Yields e m # rest) s)))"
  proof (cases "mention_step e m s")
    case (Pair r s1)
    with st have "Reply (OfInbox m) (QUOTES ! (draw e mod 10) @ footer (username s))
        \<in> set (trace s1)" by simp
    with Pair show ?thesis
      by (cases r) (simp_all add: mentions_keeps_trace)
  qed
qed

text \<open>
  Claim C8. In the posts and the comments watcher, an item on which the policy answers
  false leaves the state as it was, the trace of replies and log records included,
  raises nothing, and the watcher goes on with the rest of the stream.
\<close>

theorem policy_false_no_effect:
  "(\<not> should_comment_on_comment c \<longrightarrow>
      comment_step e c s = (None, s)
      \<and> iterate_comments (Yields e c # rest) s = iterate_comments rest s)
   \<and> (\<not> should_comment_on_post p \<longrightarrow>
      post_step e p s = (None, s)
      \<and> iterate_posts (Yields e p # rest') s = iterate_posts rest' s)"
  by (simp add: comment_step_quiet post_step_quiet)

theorem policy_false_no_effect_witness:
  "\<not> should_comment_on_comment \<lparr>comment_id = 4, body = ''nothing to see''\<rparr>
   \<and> iterate_comments [Yields calm \<lparr>comment_id = 4, body = ''nothing to see''\<rparr>]
        (initial_state None) = (None, initial_state None)
   \<and> \<not> should_comment_on_post \<lparr>submission_id = 7, selftext = ''hello'', title = ''Cats''\<rparr>
   \<and> iterate_posts [Yields calm \<lparr>submission_id = 7, selftext = ''hello'', title = ''Cats''\<rparr>]
        (initial_state None) = (None, initial_state None)"
proof -
  have c: "\<not> should_comment_on_comment \<lparr>comment_id = 4, body = ''nothing to see''\<rparr>"
    by code_simp
  have p: "\<not> should_comment_on_post \<lparr>submission_id = 7, selftext = ''hello'', title = ''Cats''\<rparr>"
    by code_simp
  from c p
    policy_false_no_effect [of "\<lparr>comment_id = 4, body = ''nothing to see''\<rparr>" calm
      "initial_state None" "[]"
      "\<lparr>submission_id = 7, selftext = ''hello'', title = ''Cats''\<rparr>" "[]"]
  show ?thesis by simp
qed

lemma marker_blocks_comment:
  "str_in ''!nopost'' (str_lower (body c)) \<Longrightarrow> \<not> should_comment_on_comment c"
  by (simp add: should_comment_on_comment_def marker_lower)

lemma marker_blocks_post:
  "str_in ''!nopost'' (str_lower (selftext p)) \<or> str_in ''!nopost'' (str_lower (title p))
     \<Longrightarrow> \<not> should_comment_on_post p"
  by (auto simp: should_comment_on_post_def marker_lower)

text \<open>
  Claim C3, as the code has it. In the comments and the posts watcher, an item
  whose raw text (the body; the selftext or the title) holds the opt-out marker in any
  letter case is not replied to by that watcher, whatever keywords it holds: handling
  it changes nothing, and no run of that watcher, from any state and over any stream,
  adds a reply addressed to it. The mentions watcher does not look for the marker: it
  replies to every inbox item of comment type whose normalized subject is
  \<open>username mention\<close>, whatever the body of the item, so also to one whose body holds
  the marker.
\<close>

theorem optout_suppresses_reply_in_comments_and_posts:
  "(str_in ''!nopost'' (str_lower (body c)) \<longrightarrow>
      comment_step e c s = (None, s)
      \<and> (\<forall>ds x. Reply (OfComment c) x \<in> set (trace (snd (iterate_comments ds s)))
                \<longrightarrow> Reply (OfComment c) x \<in> set (trace s)))
   \<and> (str_in ''!nopost'' (str_lower (selftext p)) \<or> str_in ''!nopost'' (str_lower (title p)) \<longrightarrow>
      post_step e p s = (None, s)
      \<and> (\<forall>ds x. Reply (OfSubmission p) x \<in> set (trace (snd (iterate_posts ds s)))
                \<longrightarrow> Reply (OfSubmission p) x \<in> set (trace s)))
   \<and> (standardize_text (subject m) = ''username mention'' \<and> is_comment m \<and> quotes s = QUOTES \<longrightarrow>
      (\<forall>b rest.
         Reply (OfInbox (m\<lparr>item_body := b\<rparr>)) (QUOTES ! (draw e mod 10) @ footer (username s))
           \<in> set (trace (snd (mention_step e (m\<lparr>item_body := b\<rparr>) s)))
         \<and> Reply (OfInbox (m\<lparr>item_body := b\<rparr>)) (QUOTES ! (draw e mod 10) @ footer (username s))
           \<in> set (trace (snd (listen_and_process_mentions
                                  (Yields e (m\<lparr>item_body := b\<rparr>) # rest) s)))))"
proof (intro conjI impI allI)
  assume m: "str_in ''!nopost'' (str_lower (body c))"
  then show "comment_step e c s = (None, s)"
    by (simp add: marker_blocks_comment comment_step_quiet)
  fix ds x
  assume "Reply (OfComment c) x \<in> set (trace (snd (iterate_comments ds s)))"
  then show "Reply (OfComment c) x \<in> set (trace s)"
    using iterate_comments_replies [of "OfComment c" x ds s] marker_blocks_comment [OF m]
    by auto
next
  assume m: "str_in ''!nopost'' (str_lower (selftext p)) \<or> str_in ''!nopost'' (str_lower (title p))"
  then show "post_step e p s = (None, s)"
    by (simp add: marker_blocks_post post_step_quiet)
  fix ds x
  assume "Reply (OfSubmission p) x \<in> set (trace (snd (iterate_posts ds s)))"
  then show "Reply (OfSubmission p) x \<in> set (trace s)"
    using iterate_posts_replies [of "OfSubmission p" x ds s] marker_blocks_post [OF m]
    by auto
next
  fix b rest
  assume el: "standardize_text (subject m) = ''username mention'' \<and> is_comment m \<and> quotes s = QUOTES"
  then have a: "standardize_text (subject (m\<lparr>item_body := b\<rparr>)) = ''username mention''"
    and c: "is_comment (m\<lparr>item_body := b\<rparr>)" and q: "quotes s = QUOTES"
    by simp_all
  show "Reply (OfInbox (m\<lparr>item_body := b\<rparr>)) (QUOTES ! (draw e mod 10) @ footer (username s))
           \<in> set (trace (snd (mention_step e (m\<lparr>item_body := b\<rparr>) s)))"
    by (rule mentions_replies_to_eligible(1) [OF a c q])
  show "Reply (OfInbox (m\<lparr>item_body := b\<rparr>)) (QUOTES ! (draw e mod 10) @ footer (username s))
           \<in> set (trace (snd (listen_and_process_mentions
                                  (Yields e (m\<lparr>item_body := b\<rparr>) # rest) s)))"
    by (rule mentions_replies_to_eligible(2) [OF a c q])
qed

theorem optout_suppresses_reply_in_comments_and_posts_witness:
  "str_in ''!nopost'' (str_lower ''This life! !NoPost'')
   \<and> comment_step calm \<lparr>comment_id = 2, body = ''This life! !NoPost''\<rparr> (initial_state None)
       = (None, initial_state None)
   \<and> str_in ''!nopost'' (str_lower ''!nopost please'')
   \<and> post_step calm \<lparr>submission_id = 6, selftext = ''on power'', title = ''!nopost please''\<rparr>
        (initial_state None) = (None, initial_state None)
   \<and> Reply (OfInbox (plain_mention\<lparr>item_body := ''This life! !NoPost''\<rparr>))
        (QUOTES ! 0 @ footer None)
        \<in> set (trace (snd (listen_and_process_mentions
               [Yields calm (plain_mention\<lparr>item_body := ''This life! !NoPost''\<rparr>)]
               (initial_state None))))"
proof -
  have c: "str_in ''!nopost'' (str_lower ''This life! !NoPost'')" by code_simp
  have p: "str_in ''!nopost'' (str_lower ''!nopost please'')" by code_simp
  have m: "standardize_text (subject plain_mention) = ''username mention''"
    by code_simp
  have i: "is_comment plain_mention" "draw calm = 0" "quotes (initial_state None) = QUOTES"
    "username (initial_state None) = None"
    by (simp_all add: plain_mention_def calm_def initial_state_def)
  from c p m i
    optout_suppresses_reply_in_comments_and_posts
      [of "\<lparr>comment_id = 2, body = ''This life! !NoPost''\<rparr>" calm "initial_state None"
          "\<lparr>submission_id = 6, selftext = ''on power'', title = ''!nopost please''\<rparr>"
          plain_mention]
  show ?thesis by (simp del: str_in.simps listen_and_process_mentions.simps)
qed

text \<open>
  Against claim C3 as stated: a username mention of comment type whose body holds the
  marker is replied to, and marked read, by the mentions watcher.
\<close>

theorem optout_mention_replied_counterexample:
  "str_in DONT_COMMENT_KEYWORD (item_body optout_mention)
   \<and> listen_and_process_mentions [Yields calm optout_mention] (initial_state (Some ''pradon-bot''))
     = (None,
        \<lparr>quotes = QUOTES, username = Some ''pradon-bot'',
         trace =
           [Reply (OfInbox optout_mention)
              (''We are the creators of our own reality, the architects of our own destiny.''
               @ [CHR 0x0A, CHR 0x0A] @ ''[^(source)](https://www.reddit.com/user/pradon-bot)''),
            Log INFO ''Added comment to message: u/pradon-bot !nopost'',
            MarkRead optout_mention]\<rparr>)"
  by code_simp




section \<open>Properties of the composed reply\<close>

lemma quotes_pairwise:
  "list_all (\<lambda>q. list_all (\<lambda>q'. str_in q' q \<longrightarrow> q' = q) QUOTES) QUOTES"
  by code_simp

lemma quotes_distinct: "distinct QUOTES"
  by code_simp

lemma quotes_shape:
  "list_all (\<lambda>q. q \<noteq> [] \<and> CHR 0x0A \<notin> set q
       \<and> hd q \<notin> set ''[^(source)](https://www.reddit.com/user/''
       \<and> last q \<noteq> CHR '')'') QUOTES"
  by code_simp

lemma sublist_split_at:
  assumes "c \<notin> set q" and "sublist q (xs @ c # ys)"
  shows "sublist q xs \<or> sublist q ys"
proof -
  from assms(2) consider "sublist q xs" | "sublist q (c # ys)"
    | q1 q2 where "q = q1 @ q2" "suffix q1 xs" "prefix q2 (c # ys)"
    by (auto simp: sublist_append)
  then show ?thesis
  proof cases
    case 1
    then show ?thesis by simp
  next
    case 2
    then have "prefix q (c # ys) \<or> sublist q ys" by (simp add: sublist_Cons_right)
    with assms(1) show ?thesis by (cases q) auto
  next
    case 3
    with assms(1) have "q2 = []" by (cases q2) auto
    with 3 show ?thesis by (auto simp: suffix_def)
  qed
qed

lemma sublist_drop_front:
  "q \<noteq> [] \<Longrightarrow> hd q \<notin> set A \<Longrightarrow> sublist q (A @ B) \<Longrightarrow> sublist q B"
  by (induction A) (auto simp: sublist_Cons_right neq_Nil_conv)

lemma sublist_drop_last:
  assumes "q \<noteq> []" and "last q \<noteq> c" and "sublist q (B @ [c])"
  shows "sublist q B"
proof -
  from assms(3) have "sublist (rev q) (rev (B @ [c]))" by (simp only: sublist_rev)
  then have "prefix (rev q) (c # rev B) \<or> sublist (rev q) (rev B)"
    by (simp add: sublist_Cons_right del: sublist_rev)
  moreover have "\<not> prefix (rev q) (c # rev B)"
    using assms(1,2) by (cases "rev q") (auto simp: last_rev [symmetric] simp del: last_rev)
  ultimately show ?thesis by simp
qed

lemma only_one_quote_occurs:
  assumes q: "q \<in> set QUOTES" and q': "q' \<in> set QUOTES"
    and u: "\<not> str_in q' (format_username u)"
    and occ: "str_in q' (q @ footer u)"
  shows "q' = q"
proof -
  from quotes_shape q' have sh: "q' \<noteq> []" "CHR 0x0A \<notin> set q'"
      "hd q' \<notin> set ''[^(source)](https://www.reddit.com/user/''" "last q' \<noteq> CHR '')''"
    by (auto simp: list_all_iff)
  from occ have "sublist q' (q @ CHR 0x0A #
        (CHR 0x0A # ''[^(source)](https://www.reddit.com/user/'' @ format_username u @ '')''))"
    by (simp add: str_in_sublist footer_def)
  from sublist_split_at [OF sh(2) this]
  consider "sublist q' q"
    | "sublist q' ([] @ CHR 0x0A # ''[^(source)](https://www.reddit.com/user/'' @ format_username u @ '')'')"
    by auto
  then show ?thesis
  proof cases
    case 1
    with quotes_pairwise q q' show ?thesis by (auto simp: list_all_iff str_in_sublist)
  next
    case 2
    from sublist_split_at [OF sh(2) 2] sh(1)
    have "sublist q' (''[^(source)](https://www.reddit.com/user/'' @ (format_username u @ '')''))"
      by simp
    from sublist_drop_front [OF sh(1) sh(3) this]
    have "sublist q' (format_username u @ [CHR '')''])" by simp
    from sublist_drop_last [OF sh(1) sh(4) this] u show ?thesis
      by (simp add: str_in_sublist)
  qed
qed

text \<open>
  Claim C6. With \<open>QUOTES\<close> as the module defines it, \<open>write_comment\<close> sends, for every
  draw of the generator, a text that is one of the ten quotes followed by the footer,
  and the footer is the fixed text around the account handle \<open>USERNAME\<close>. The ten
  quotes are distinct and none occurs inside another, so the quote is determined by
  the text; and unless the handle itself holds a quote, the chosen quote is the only
  one of the ten that occurs anywhere in the text.
\<close>

theorem write_comment_one_quote_and_footer:
  "(quotes s = QUOTES \<longrightarrow>
      write_comment e obj s =
        (reply_raises e,
         s\<lparr>trace := trace s @ [Reply obj (QUOTES ! (draw e mod 10) @ footer (username s))]\<rparr>))
   \<and> QUOTES ! (draw e mod 10) \<in> set QUOTES
   \<and> length QUOTES = 10 \<and> distinct QUOTES
   \<and> footer u =
        [CHR 0x0A, CHR 0x0A] @ ''[^(source)](https://www.reddit.com/user/''
          @ (case u of None \<Rightarrow> ''None'' | Some h \<Rightarrow> h) @ '')''
   \<and> (\<forall>q \<in> set QUOTES. q @ footer u = QUOTES ! (draw e mod 10) @ footer u
          \<longrightarrow> q = QUOTES ! (draw e mod 10))
   \<and> (\<forall>q \<in> set QUOTES. \<not> str_in q (format_username u) \<longrightarrow>
          (str_in q (QUOTES ! (draw e mod 10) @ footer u) \<longleftrightarrow> q = QUOTES ! (draw e mod 10)))"
proof (intro conjI impI ballI)
  show "write_comment e obj s =
        (reply_raises e,
         s\<lparr>trace := trace s @ [Reply obj (QUOTES ! (draw e mod 10) @ footer (username s))]\<rparr>)"
    if "quotes s = QUOTES"
    using that by (rule write_comment_quotes)
  show m: "QUOTES ! (draw e mod 10) \<in> set QUOTES" by (simp add: choice_quotes)
  show "length QUOTES = 10" by (rule quotes_length)
  show "distinct QUOTES" by (rule quotes_distinct)
  show "footer u =
        [CHR 0x0A, CHR 0x0A] @ ''[^(source)](https://www.reddit.com/user/''
          @ (case u of None \<Rightarrow> ''None'' | Some h \<Rightarrow> h) @ '')''"
    by (cases u) (simp_all add: footer_def)
  show "q = QUOTES ! (draw e mod 10)"
    if "q \<in> set QUOTES" "q @ footer u = QUOTES ! (draw e mod 10) @ footer u" for q
    using that by simp
  show "str_in q (QUOTES ! (draw e mod 10) @ footer u) \<longleftrightarrow> q = QUOTES ! (draw e mod 10)"
    if "q \<in> set QUOTES" "\<not> str_in q (format_username u)" for q
  proof
    assume "str_in q (QUOTES ! (draw e mod 10) @ footer u)"
    with only_one_quote_occurs [OF m that] show "q = QUOTES ! (draw e mod 10)" by simp
  next
    assume "q = QUOTES ! (draw e mod 10)"
    then show "str_in q (QUOTES ! (draw e mod 10) @ footer u)"
      by (simp add: str_in_sublist)
  qed
qed

theorem write_comment_one_quote_and_footer_witness:
  "write_comment \<lparr>draw = 17, reply_raises = None, mark_read_raises = None\<rparr>
       (OfComment \<lparr>comment_id = 1, body = ''Reality is fragile''\<rparr>)
       (initial_state (Some ''pradon-bot''))
     = (None,
        \<lparr>quotes = QUOTES, username = Some ''pradon-bot'',
         trace =
           [Reply (OfComment \<lparr>comment_id = 1, body = ''Reality is fragile''\<rparr>)
              (QUOTES ! 7 @ footer (Some ''pradon-bot''))]\<rparr>)
   \<and> QUOTES ! 7 = ''Freedom is not given to us, it is something we must claim for ourselves.''
   \<and> \<not> str_in (QUOTES ! 0) (QUOTES ! 7 @ footer (Some ''pradon-bot''))"
proof -
  note T = write_comment_one_quote_and_footer
      [of "initial_state (Some ''pradon-bot'')"
          "\<lparr>draw = 17, reply_raises = None, mark_read_raises = None\<rparr>"
          "OfComment \<lparr>comment_id = 1, body = ''Reality is fragile''\<rparr>" "Some ''pradon-bot''"]
  have w: "QUOTES ! 0 \<in> set QUOTES" "QUOTES ! 0 \<noteq> QUOTES ! 7"
    "QUOTES ! 7 = ''Freedom is not given to us, it is something we must claim for ourselves.''"
    by (simp_all add: QUOTES_def)
  have h: "\<not> str_in (QUOTES ! 0) ''pradon-bot''" by code_simp
  from T have A: "write_comment \<lparr>draw = 17, reply_raises = None, mark_read_raises = None\<rparr>
       (OfComment \<lparr>comment_id = 1, body = ''Reality is fragile''\<rparr>)
       (initial_state (Some ''pradon-bot''))
     = (None,
        \<lparr>quotes = QUOTES, username = Some ''pradon-bot'',
         trace =
           [Reply (OfComment \<lparr>comment_id = 1, body = ''Reality is fragile''\<rparr>)
              (QUOTES ! 7 @ footer (Some ''pradon-bot''))]\<rparr>)"
    by (simp add: initial_state_def)
  have d: "draw \<lparr>draw = 17, reply_raises = None, mark_read_raises = None\<rparr> mod 10 = 7"
    "format_username (Some ''pradon-bot'') = ''pradon-bot''"
    by simp_all
  from T have "\<forall>q \<in> set QUOTES. \<not> str_in q (format_username (Some ''pradon-bot'')) \<longrightarrow>
      str_in q (QUOTES ! (draw \<lparr>draw = 17, reply_raises = None, mark_read_raises = None\<rparr> mod 10)
                  @ footer (Some ''pradon-bot''))
        = (q = QUOTES ! (draw \<lparr>draw = 17, reply_raises = None, mark_read_raises = None\<rparr> mod 10))"
    by blast
  then have B: "\<forall>q \<in> set QUOTES. \<not> str_in q ''pradon-bot'' \<longrightarrow>
      str_in q (QUOTES ! 7 @ footer (Some ''pradon-bot'')) = (q = QUOTES ! 7)"
    unfolding d .
  from B w(1,2) h have "\<not> str_in (QUOTES ! 0) (QUOTES ! 7 @ footer (Some ''pradon-bot''))"
    by blast
  with A w(3) show ?thesis by blast
qed

lemma comment_step_quotes: "quotes (snd (comment_step e c s)) = quotes s"
  by (simp add: comment_step_def logger_debug_silent logger_info_trace write_comment_cases
           split: option.splits)

lemma post_step_quotes: "quotes (snd (post_step e p s)) = quotes s"
  by (simp add: post_step_def logger_debug_silent logger_info_trace write_comment_cases
           split: option.splits)

lemma mention_step_quotes: "quotes (snd (mention_step e m s)) = quotes s"
  by (simp add: mention_step_def logger_info_trace write_comment_cases Let_def
           split: option.splits)

lemma iterate_comments_quotes: "quotes (snd (iterate_comments ds s)) = quotes s"
proof (induction ds s rule: iterate_comments.induct)
  case (3 e c rest s)
  then show ?case
    using comment_step_quotes [of e c s]
    by (cases "comment_step e c s") (auto split: option.splits)
qed simp_all

lemma iterate_posts_quotes: "quotes (snd (iterate_posts ds s)) = quotes s"
proof (induction ds s rule: iterate_posts.induct)
  case (3 e p rest s)
  then show ?case
    using post_step_quotes [of e p s]
    by (cases "post_step e p s") (auto split: option.splits)
qed simp_all

lemma mentions_quotes: "quotes (snd (listen_and_process_mentions ds s)) = quotes s"
proof (induction ds s rule: listen_and_process_mentions.induct)
  case (3 e m rest s)
  then show ?case
    using mention_step_quotes [of e m s]
    by (cases "mention_step e m s") (auto split: option.splits)
qed simp_all

text \<open>
  Claim C9. \<open>QUOTES\<close> is a fixed sequence of ten strings, not empty. The state starts
  with it, and no operation of the program changes it: \<open>write_comment\<close>, the loggers
  and any run of any of the three watchers leave the quotes of the state as they
  were. So the selection in \<open>write_comment\<close> never draws from an empty sequence: for
  every number the generator supplies, \<open>random.choice\<close> returns a member of
  \<open>QUOTES\<close>, and \<open>write_comment\<close> raises nothing but what the call of \<open>reply\<close> raises.
\<close>

theorem quotes_fixed_and_choice_defined:
  "QUOTES \<noteq> [] \<and> length QUOTES = 10
   \<and> quotes (initial_state u) = QUOTES
   \<and> quotes (snd (write_comment e obj s)) = quotes s
   \<and> quotes (emit lvl msg s) = quotes s
   \<and> quotes (snd (iterate_comments cs s)) = quotes s
   \<and> quotes (snd (iterate_posts ps s)) = quotes s
   \<and> quotes (snd (listen_and_process_mentions ms s)) = quotes s
   \<and> (\<exists>q. choice QUOTES r = Inr q \<and> q \<in> set QUOTES)
   \<and> fst (write_comment e obj (snd (iterate_comments cs (initial_state u)))) = reply_raises e
   \<and> fst (write_comment e obj (snd (iterate_posts ps (initial_state u)))) = reply_raises e
   \<and> fst (write_comment e obj (snd (listen_and_process_mentions ms (initial_state u))))
       = reply_raises e"
proof -
  have i: "quotes (initial_state u) = QUOTES" by (simp add: initial_state_def)
  have w: "fst (write_comment e obj t) = reply_raises e" if "quotes t = QUOTES" for t
    using write_comment_quotes [OF that] by simp
  have "QUOTES \<noteq> []" using quotes_length by auto
  moreover have "quotes (snd (write_comment e obj s)) = quotes s"
    by (simp add: write_comment_cases)
  moreover have "quotes (emit lvl msg s) = quotes s"
    by (simp add: emit_def)
  moreover have "\<exists>q. choice QUOTES r = Inr q \<and> q \<in> set QUOTES"
    using choice_quotes by blast
  moreover have "fst (write_comment e obj (snd (iterate_comments cs (initial_state u)))) = reply_raises e"
    by (rule w) (simp add: iterate_comments_quotes i)
  moreover have "fst (write_comment e obj (snd (iterate_posts ps (initial_state u)))) = reply_raises e"
    by (rule w) (simp add: iterate_posts_quotes i)
  moreover have "fst (write_comment e obj (snd (listen_and_process_mentions ms (initial_state u))))
       = reply_raises e"
    by (rule w) (simp add: mentions_quotes i)
  ultimately show ?thesis
    using i quotes_length iterate_comments_quotes iterate_posts_quotes mentions_quotes
    by simp
qed

theorem quotes_fixed_and_choice_defined_witness:
  "quotes (snd (iterate_comments
       [Yields calm \<lparr>comment_id = 1, body = ''Reality is fragile''\<rparr>] (initial_state None)))
     = QUOTES
   \<and> fst (write_comment calm (OfComment \<lparr>comment_id = 1, body = ''Reality is fragile''\<rparr>)
        (snd (iterate_comments
          [Yields calm \<lparr>comment_id = 1, body = ''Reality is fragile''\<rparr>] (initial_state None))))
     = None"
  using quotes_fixed_and_choice_defined
      [of None calm "OfComment \<lparr>comment_id = 1, body = ''Reality is fragile''\<rparr>"
          "initial_state None" _ _
          "[Yields calm \<lparr>comment_id = 1, body = ''Reality is fragile''\<rparr>]"]
  by (simp add: calm_def)

section \<open>Properties of the restart wrapper\<close>

lemma while_True_caught:
  "(\<forall>k. length (invocations v) \<le> k \<and> k < length (invocations v) + fuel \<longrightarrow>
        (\<forall>cls. h a k \<noteq> Raises (NonException cls))) \<Longrightarrow>
   while_True fuel h a v =
     (None, v\<lparr>invocations := invocations v @ replicate fuel a,
              records := records v
                @ error_records h a [length (invocations v) ..< length (invocations v) + fuel]\<rparr>)"
proof (induction fuel arbitrary: v)
  case 0
  then show ?case by simp
next
  case (Suc fuel)
  let ?n = "length (invocations v)"
  have now: "\<forall>cls. h a ?n \<noteq> Raises (NonException cls)"
    using Suc.prems by simp
  have up: "[?n ..< Suc (?n + fuel)] = ?n # [Suc ?n ..< Suc (?n + fuel)]"
    by (simp add: upt_conv_Cons)
  show ?case
  proof (cases "h a ?n")
    case Returns
    let ?v1 = "v\<lparr>invocations := invocations v @ [a]\<rparr>"
    have "\<forall>k. length (invocations ?v1) \<le> k \<and> k < length (invocations ?v1) + fuel \<longrightarrow>
        (\<forall>cls. h a k \<noteq> Raises (NonException cls))"
      using Suc.prems by simp
    from Suc.IH [OF this] Returns show ?thesis
      by (simp add: up replicate_app_Cons_same del: upt_Suc)
  next
    case (Raises x)
    with now obtain msg where x: "x = Exception msg" by (cases x) auto
    let ?v1 = "v\<lparr>invocations := invocations v @ [a],
                  records := records v @ [Log ERROR (''Exception: '' @ msg)]\<rparr>"
    have "\<forall>k. length (invocations ?v1) \<le> k \<and> k < length (invocations ?v1) + fuel \<longrightarrow>
        (\<forall>cls. h a k \<noteq> Raises (NonException cls))"
      using Suc.prems by simp
    from Suc.IH [OF this] Raises x show ?thesis
      by (simp add: up replicate_app_Cons_same del: upt_Suc)
  qed
qed

lemma while_True_same_args:
  "\<exists>m \<le> fuel. invocations (snd (while_True fuel h a v)) = invocations v @ replicate m a
      \<and> (0 < fuel \<longrightarrow> 0 < m)"
proof (induction fuel arbitrary: v)
  case 0
  then show ?case by simp
next
  case (Suc fuel)
  let ?n = "length (invocations v)"
  show ?case
  proof (cases "h a ?n")
    case Returns
    from Suc.IH [of "v\<lparr>invocations := invocations v @ [a]\<rparr>"]
    obtain m where "m \<le> fuel"
      "invocations (snd (while_True fuel h a (v\<lparr>invocations := invocations v @ [a]\<rparr>)))
         = invocations v @ replicate (Suc m) a"
      by (auto simp: replicate_app_Cons_same)
    with Returns show ?thesis
      by (intro exI [of _ "Suc m"]) simp
  next
    case (Raises x)
    show ?thesis
    proof (cases x)
      case (Exception msg)
      from Suc.IH [of "v\<lparr>invocations := invocations v @ [a],
                  records := records v @ [Log ERROR (''Exception: '' @ msg)]\<rparr>"]
      obtain m where "m \<le> fuel"
        "invocations (snd (while_True fuel h a (v\<lparr>invocations := invocations v @ [a],
                  records := records v @ [Log ERROR (''Exception: '' @ msg)]\<rparr>)))
           = invocations v @ replicate (Suc m) a"
        by (auto simp: replicate_app_Cons_same)
      with Raises Exception show ?thesis
        by (intro exI [of _ "Suc m"]) simp
    next
      case (NonException cls)
      with Raises show ?thesis
        by (intro exI [of _ "Suc 0"]) simp
    qed
  qed
qed

lemma while_True_add:
  "while_True (n + m) h a v =
     (case while_True n h a v of
        (None, v') \<Rightarrow> while_True m h a v'
      | (Some x, v') \<Rightarrow> (Some x, v'))"
proof (induction n arbitrary: v)
  case 0
  then show ?case by simp
next
  case (Suc n)
  show ?case
  proof (cases "h a (length (invocations v))")
    case Returns
    with Suc.IH show ?thesis by simp
  next
    case (Raises x)
    with Suc.IH show ?thesis by (cases x) simp_all
  qed
qed

lemma while_True_propagates:
  "fst (while_True fuel h a v) = Some x \<Longrightarrow>
     \<exists>cls k. length (invocations v) \<le> k \<and> k < length (invocations v) + fuel
        \<and> x = NonException cls \<and> h a k = Raises (NonException cls)"
proof (induction fuel arbitrary: v)
  case 0
  then show ?case by simp
next
  case (Suc fuel)
  let ?n = "length (invocations v)"
  have later: "\<exists>cls k. ?n \<le> k \<and> k < ?n + Suc fuel
        \<and> x = NonException cls \<and> h a k = Raises (NonException cls)"
    if "fst (while_True fuel h a v1) = Some x" and "length (invocations v1) = Suc ?n" for v1
  proof -
    from Suc.IH [OF that(1)] that(2)
    obtain cls k where "Suc ?n \<le> k" "k < Suc ?n + fuel" "x = NonException cls"
      "h a k = Raises (NonException cls)"
      by auto
    then have "?n \<le> k \<and> k < ?n + Suc fuel \<and> x = NonException cls
        \<and> h a k = Raises (NonException cls)"
      by simp
    then show ?thesis by blast
  qed
  show ?case
  proof (cases "h a ?n")
    case Returns
    with Suc.prems
    have "fst (while_True fuel h a (v\<lparr>invocations := invocations v @ [a]\<rparr>)) = Some x"
      by simp
    then show ?thesis by (rule later) simp
  next
    case (Raises y)
    show ?thesis
    proof (cases y)
      case (Exception msg)
      with Raises Suc.prems
      have "fst (while_True fuel h a (v\<lparr>invocations := invocations v @ [a],
                  records := records v @ [Log ERROR (''Exception: '' @ msg)]\<rparr>)) = Some x"
        by simp
      then show ?thesis by (rule later) simp
    next
      case (NonException cls)
      with Raises Suc.prems have "x = NonException cls" by simp
      with Raises NonException
      have "?n \<le> ?n \<and> ?n < ?n + Suc fuel \<and> x = NonException cls
          \<and> h a ?n = Raises (NonException cls)"
        by simp
      then show ?thesis by blast
    qed
  qed
qed

lemma while_True_first_NonException:
  assumes early: "\<forall>j<k. \<forall>c. h a j \<noteq> Raises (NonException c)"
    and at: "h a k = Raises (NonException cls)"
  shows "restart str_args h (k + Suc m) a =
     (Some (NonException cls),
      \<lparr>invocations = replicate (Suc k) a,
       records = Log INFO (''Starting thread with: '' @ str_args a) # error_records h a [0..<k]\<rparr>)"
proof -
  define v0 :: "'a supervision" where "v0 =
     \<lparr>invocations = [], records = [Log INFO (''Starting thread with: '' @ str_args a)]\<rparr>"
  define v1 where "v1 =
     \<lparr>invocations = replicate k a,
      records = Log INFO (''Starting thread with: '' @ str_args a) # error_records h a [0..<k]\<rparr>"
  have ok: "\<forall>j. length (invocations v0) \<le> j \<and> j < length (invocations v0) + k \<longrightarrow>
        (\<forall>c. h a j \<noteq> Raises (NonException c))"
    using early by (simp add: v0_def)
  have first: "while_True k h a v0 = (None, v1)"
    using while_True_caught [of v0 k h a, OF ok] by (simp add: v0_def v1_def)
  have "while_True (Suc m) h a v1 =
      (Some (NonException cls), v1\<lparr>invocations := invocations v1 @ [a]\<rparr>)"
    using at by (simp add: v1_def)
  then have "while_True (k + Suc m) h a v0 =
      (Some (NonException cls), v1\<lparr>invocations := invocations v1 @ [a]\<rparr>)"
    by (simp only: while_True_add first prod.case option.case)
  then show ?thesis
    by (simp add: restart_def v0_def v1_def replicate_append_same)
qed

text \<open>
  Claim C2, as the code has it. The wrapped function catches every exception of the
  handler that is an instance of \<open>Exception\<close>, logs it and calls the handler again
  with the same arguments, without end: as long as no invocation raises an exception
  outside \<open>Exception\<close>, after any number of rounds the loop is still running, the
  handler has been called once per round with the same arguments, and one \<open>ERROR\<close>
  record stands for each invocation that raised. In particular, when each of the first
  \<open>n\<close> invocations raises an instance of \<open>Exception\<close>, nothing has left the wrapper
  after them and the handler is called an \<open>n + 1\<close>-th time with the same arguments.
  An exception outside \<open>Exception\<close> is not caught: the first invocation that raises
  one is the last, nothing is logged for it, and the exception leaves the wrapper.
  These are the only exceptions that ever leave the wrapper.
\<close>

theorem restart_catches_every_Exception:
  "((\<forall>k<fuel. \<forall>cls. handler args k \<noteq> Raises (NonException cls)) \<longrightarrow>
      restart str_args handler fuel args =
        (None,
         \<lparr>invocations = replicate fuel args,
          records = Log INFO (''Starting thread with: '' @ str_args args)
                    # error_records handler args [0..<fuel]\<rparr>))
   \<and> ((\<forall>k<n. \<exists>msg. handler args k = Raises (Exception msg)) \<longrightarrow>
        fst (restart str_args handler n args) = None
        \<and> (\<forall>m. take (Suc n) (invocations (snd (restart str_args handler (n + Suc m) args)))
               = replicate (Suc n) args))
   \<and> (\<forall>x. fst (restart str_args handler fuel args) = Some x \<longrightarrow>
        (\<exists>cls k. k < fuel \<and> x = NonException cls \<and> handler args k = Raises (NonException cls)))
   \<and> ((\<forall>j<k. \<forall>c. handler args j \<noteq> Raises (NonException c))
        \<and> handler args k = Raises (NonException cls) \<longrightarrow>
        (\<forall>m. restart str_args handler (k + Suc m) args =
           (Some (NonException cls),
            \<lparr>invocations = replicate (Suc k) args,
             records = Log INFO (''Starting thread with: '' @ str_args args)
                       # error_records handler args [0..<k]\<rparr>)))"
proof (intro conjI impI allI)
  let ?v0 = "\<lparr>invocations = [], records = [Log INFO (''Starting thread with: '' @ str_args args)]\<rparr>"
  show "restart str_args handler fuel args =
        (None,
         \<lparr>invocations = replicate fuel args,
          records = Log INFO (''Starting thread with: '' @ str_args args)
                    # error_records handler args [0..<fuel]\<rparr>)"
    if "\<forall>k<fuel. \<forall>cls. handler args k \<noteq> Raises (NonException cls)"
    using while_True_caught [of ?v0 fuel handler args] that by (simp add: restart_def)
  show "\<exists>cls k. k < fuel \<and> x = NonException cls \<and> handler args k = Raises (NonException cls)"
    if "fst (restart str_args handler fuel args) = Some x" for x
    using while_True_propagates [of fuel handler args ?v0 x] that by (simp add: restart_def)
  show "restart str_args handler (k + Suc m) args =
           (Some (NonException cls),
            \<lparr>invocations = replicate (Suc k) args,
             records = Log INFO (''Starting thread with: '' @ str_args args)
                       # error_records handler args [0..<k]\<rparr>)"
    if "(\<forall>j<k. \<forall>c. handler args j \<noteq> Raises (NonException c))
        \<and> handler args k = Raises (NonException cls)" for m
    using that while_True_first_NonException [of k handler args cls str_args m] by blast
  assume ex: "\<forall>k<n. \<exists>msg. handler args k = Raises (Exception msg)"
  have "handler args k \<noteq> Raises (NonException cls)" if "k < n" for k cls
  proof -
    from ex that obtain msg where "handler args k = Raises (Exception msg)" by blast
    then show ?thesis by simp
  qed
  then have ok: "\<forall>k. length (invocations ?v0) \<le> k \<and> k < length (invocations ?v0) + n \<longrightarrow>
        (\<forall>cls. handler args k \<noteq> Raises (NonException cls))"
    by simp
  define v1 where "v1 =
     \<lparr>invocations = replicate n args,
      records = Log INFO (''Starting thread with: '' @ str_args args)
                # error_records handler args [0..<n]\<rparr>"
  have first: "while_True n handler args ?v0 = (None, v1)"
    using while_True_caught [of ?v0 n handler args, OF ok] by (simp add: v1_def)
  then show "fst (restart str_args handler n args) = None"
    by (simp add: restart_def)
  fix m
  have "restart str_args handler (n + Suc m) args = while_True (Suc m) handler args v1"
    by (simp only: restart_def while_True_add first prod.case option.case)
  moreover obtain j where "0 < j"
    "invocations (snd (while_True (Suc m) handler args v1)) = invocations v1 @ replicate j args"
    using while_True_same_args [of "Suc m" handler args v1] by auto
  ultimately have "invocations (snd (restart str_args handler (n + Suc m) args))
      = replicate (n + j) args" and "0 < j"
    by (simp_all add: replicate_add v1_def)
  then show "take (Suc n) (invocations (snd (restart str_args handler (n + Suc m) args)))
               = replicate (Suc n) args"
    by (simp add: min_def)
qed

theorem restart_catches_every_Exception_witness:
  "restart str_main_args flaky_handler 3 Quotes_arg =
     (None,
      \<lparr>invocations = [Quotes_arg, Quotes_arg, Quotes_arg],
       records = [Log INFO (''Starting thread with: '' @ str_main_args Quotes_arg),
                  Log ERROR ''Exception: timeout'', Log ERROR ''Exception: timeout'']\<rparr>)
   \<and> restart str_main_args interrupted_handler 5 Quotes_arg =
     (Some (NonException ''KeyboardInterrupt''),
      \<lparr>invocations = [Quotes_arg, Quotes_arg, Quotes_arg],
       records = [Log INFO (''Starting thread with: '' @ str_main_args Quotes_arg),
                  Log ERROR ''Exception: timeout'', Log ERROR ''Exception: timeout'']\<rparr>)"
proof -
  have h: "\<forall>k<3. \<forall>cls. flaky_handler Quotes_arg k \<noteq> Raises (NonException cls)"
    by (simp add: flaky_handler_def)
  have e: "error_records flaky_handler Quotes_arg [0..<3]
             = [Log ERROR ''Exception: timeout'', Log ERROR ''Exception: timeout'']"
    by (simp add: numeral_3_eq_3 flaky_handler_def)
  have r: "replicate 3 Quotes_arg = [Quotes_arg, Quotes_arg, Quotes_arg]"
    "replicate (Suc 2) Quotes_arg = [Quotes_arg, Quotes_arg, Quotes_arg]"
    by (simp_all add: numeral_3_eq_3 numeral_2_eq_2)
  have i: "(\<forall>j<2. \<forall>c. interrupted_handler Quotes_arg j \<noteq> Raises (NonException c))
      \<and> interrupted_handler Quotes_arg 2 = Raises (NonException ''KeyboardInterrupt'')"
    by (simp add: interrupted_handler_def)
  have e2: "error_records interrupted_handler Quotes_arg [0..<2]
             = [Log ERROR ''Exception: timeout'', Log ERROR ''Exception: timeout'']"
    by (simp add: numeral_2_eq_2 interrupted_handler_def)
  have f: "(2::nat) + Suc 2 = 5" by simp
  from restart_catches_every_Exception [of 3 flaky_handler Quotes_arg str_main_args] h
  have A: "restart str_main_args flaky_handler 3 Quotes_arg =
        (None,
         \<lparr>invocations = replicate 3 Quotes_arg,
          records = Log INFO (''Starting thread with: '' @ str_main_args Quotes_arg)
                    # error_records flaky_handler Quotes_arg [0..<3]\<rparr>)"
    by blast
  from restart_catches_every_Exception
         [where handler = interrupted_handler and args = Quotes_arg and k = 2
            and cls = "''KeyboardInterrupt''" and str_args = str_main_args] i
  have "\<forall>m. restart str_main_args interrupted_handler (2 + Suc m) Quotes_arg =
        (Some (NonException ''KeyboardInterrupt''),
         \<lparr>invocations = replicate (Suc 2) Quotes_arg,
          records = Log INFO (''Starting thread with: '' @ str_main_args Quotes_arg)
                    # error_records interrupted_handler Quotes_arg [0..<2]\<rparr>)"
    by blast
  then have B: "restart str_main_args interrupted_handler (2 + Suc 2) Quotes_arg =
        (Some (NonException ''KeyboardInterrupt''),
         \<lparr>invocations = replicate (Suc 2) Quotes_arg,
          records = Log INFO (''Starting thread with: '' @ str_main_args Quotes_arg)
                    # error_records interrupted_handler Quotes_arg [0..<2]\<rparr>)"
    by (rule spec)
  from A B show ?thesis unfolding e e2 r f by (rule conjI)
qed

text \<open>
  Against claim C2 as stated: a handler whose first invocation raises \<open>SystemExit\<close> is
  called once, the exception leaves the wrapper, and nothing is logged for it.
\<close>

theorem restart_lets_SystemExit_through_counterexample:
  "restart str_main_args exiting_handler 5 No_args =
     (Some (NonException ''SystemExit''),
      \<lparr>invocations = [No_args], records = [Log INFO ''Starting thread with: ()'']\<rparr>)"
  by (simp add: restart_def exiting_handler_def numeral_eq_Suc)

end
